theory Spec2Isabelle
  imports Main "HOL-Library.Multiset"
begin

section \<open>Data model\<close>

text \<open>
  A FASTQ record as the reader hands it to the loops of \<^verbatim>\<open>demultiplex.py\<close> and
  \<^verbatim>\<open>pyinseq.py\<close>: the three attributes the code reads.
\<close>

record read =
  name :: string
  sequence :: string
  quality :: string

text \<open>
  A Python \<^verbatim>\<open>dict\<close> is an association list in insertion order with pairwise distinct
  keys. \<open>dict_set\<close> is the assignment \<^verbatim>\<open>d[k] = v\<close>: an existing key keeps its place and
  gets the new value, a new key goes to the end. \<open>map_of\<close> is the lookup, \<open>None\<close> where
  Python raises \<^verbatim>\<open>KeyError\<close>.
\<close>

type_synonym ('k, 'v) dict = "('k \<times> 'v) list"

fun dict_set :: "'k \<Rightarrow> 'v \<Rightarrow> ('k, 'v) dict \<Rightarrow> ('k, 'v) dict" where
  "dict_set k v [] = [(k, v)]"
| "dict_set k v ((k', v') # d) = (if k' = k then (k, v) # d else (k', v') # dict_set k v d)"

definition dict_keys :: "('k, 'v) dict \<Rightarrow> 'k list" where
  "dict_keys d = map fst d"

definition dict_values :: "('k, 'v) dict \<Rightarrow> 'v list" where
  "dict_values d = map snd d"

section \<open>The transposon-junction extractor (\<^verbatim>\<open>pyinseq.py\<close>, extract\_chromosome\_sequence)\<close>

text \<open>
  The compiled pattern is
  \<^verbatim>\<open>^([ACGT]{4})([NACGT][ACGT]{13,14}(?:TA))ACAGGTTG\<close>.
  It is anchored at the start of the sequence, so \<^verbatim>\<open>re.search\<close> can only match at
  offset 0. \<open>match_with n\<close> is the attempt in which the bounded repetition
  \<^verbatim>\<open>[ACGT]{13,14}\<close> takes \<open>n\<close> characters; the repetition is greedy, so the
  attempt with 14 comes first and the one with 13 is the backtracking alternative.
  The result is the pair of groups 1 and 2, \<open>None\<close> when \<^verbatim>\<open>re.search\<close> returns
  \<^verbatim>\<open>None\<close>.
\<close>

definition is_ACGT :: "char \<Rightarrow> bool" where
  "is_ACGT c \<longleftrightarrow> c = CHR ''A'' \<or> c = CHR ''C'' \<or> c = CHR ''G'' \<or> c = CHR ''T''"

definition is_NACGT :: "char \<Rightarrow> bool" where
  "is_NACGT c \<longleftrightarrow> c = CHR ''N'' \<or> is_ACGT c"

definition match_with :: "nat \<Rightarrow> string \<Rightarrow> (string \<times> string) option" where
  "match_with n s =
     (if length (take 4 s) = 4 \<and> list_all is_ACGT (take 4 s)
         \<and> length (take 1 (drop 4 s)) = 1 \<and> list_all is_NACGT (take 1 (drop 4 s))
         \<and> length (take n (drop 5 s)) = n \<and> list_all is_ACGT (take n (drop 5 s))
         \<and> take 2 (drop (5 + n) s) = ''TA''
         \<and> take 8 (drop (7 + n) s) = ''ACAGGTTG''
      then Some (take 4 s, take (3 + n) (drop 4 s))
      else None)"

definition pattern_search :: "string \<Rightarrow> (string \<times> string) option" where
  "pattern_search s =
     (case match_with 14 s of Some m \<Rightarrow> Some m | None \<Rightarrow> match_with 13 s)"

text \<open>
  One iteration of the loop over the reads. With no match \<^verbatim>\<open>m.group\<close> raises on
  \<^verbatim>\<open>None\<close> and the bare \<^verbatim>\<open>except\<close> passes: the dictionary is unchanged. With a match,
  \<^verbatim>\<open>insertionDict.setdefault(barcode, {chrom_seq: 0})[chrom_seq] += 1\<close> has three
  outcomes: the barcode is new (the default \<^verbatim>\<open>{chrom_seq: 0}\<close> is stored and then
  incremented), the barcode and the sequence are known (the count is incremented),
  or the barcode is known and the sequence is not (the read of the count raises
  \<^verbatim>\<open>KeyError\<close>, and the handler stores 1).
\<close>

type_synonym insertion_dict = "(string, (string, int) dict) dict"

definition extract_step :: "insertion_dict \<Rightarrow> read \<Rightarrow> insertion_dict" where
  "extract_step insertionDict r =
     (case pattern_search (sequence r) of
        None \<Rightarrow> insertionDict
      | Some (barcode, chrom_seq) \<Rightarrow>
          (case map_of insertionDict barcode of
             None \<Rightarrow> dict_set barcode (dict_set chrom_seq (0 + 1) [(chrom_seq, 0)]) insertionDict
           | Some inner \<Rightarrow>
               (case map_of inner chrom_seq of
                  Some c \<Rightarrow> dict_set barcode (dict_set chrom_seq (c + 1) inner) insertionDict
                | None \<Rightarrow> dict_set barcode (dict_set chrom_seq 1 inner) insertionDict)))"

definition extract_from :: "insertion_dict \<Rightarrow> read list \<Rightarrow> insertion_dict" where
  "extract_from insertionDict reads = foldl extract_step insertionDict reads"

definition extract_chromosome_sequence :: "read list \<Rightarrow> insertion_dict" where
  "extract_chromosome_sequence reads = extract_from [] reads"

section \<open>The earlier extractor (\<^verbatim>\<open>demultiplex.py\<close>, trim\_fastq)\<close>

text \<open>
  \<^verbatim>\<open>str.find\<close>: the lowest index at which the substring occurs, \<open>-1\<close> when it does not.
\<close>

fun find_from :: "string \<Rightarrow> string \<Rightarrow> nat \<Rightarrow> int" where
  "find_from sub [] i = (if sub = [] then int i else - 1)"
| "find_from sub (c # cs) i =
     (if take (length sub) (c # cs) = sub then int i else find_from sub cs (i + 1))"

definition py_find :: "string \<Rightarrow> string \<Rightarrow> int" where
  "py_find s sub = find_from sub s 0"

text \<open>
  The body of the loop of trim\_fastq for one read. \<^verbatim>\<open>bLen\<close> is reassigned to 4 before
  the loop, whatever the argument was. \<^verbatim>\<open>chromosomeSeq\<close> is
  \<^verbatim>\<open>read.sequence.find('TAACAGGTTG') + 2 - bLen\<close>; the read is kept when it lies in
  \<^verbatim>\<open>range(16, 18)\<close>, and what is kept is \<^verbatim>\<open>read[slice(bLen, chromosomeSeq + bLen)]\<close>,
  the same slice of the sequence and of the quality. In the branch that keeps the read
  both ends of the slice are non-negative, so the slice is a \<open>take\<close> of a \<open>drop\<close>.
\<close>

definition chromosomeSeq :: "string \<Rightarrow> int" where
  "chromosomeSeq s = py_find s ''TAACAGGTTG'' + 2 - 4"

definition slice_from_to :: "string \<Rightarrow> int \<Rightarrow> int \<Rightarrow> string" where
  "slice_from_to s start stop = take (nat stop - nat start) (drop (nat start) s)"

definition trim_read :: "read \<Rightarrow> read option" where
  "trim_read r =
     (let bLen = 4; c = chromosomeSeq (sequence r) in
      if 16 \<le> c \<and> c < 18
      then Some (r\<lparr>sequence := slice_from_to (sequence r) bLen (c + bLen),
                    quality := slice_from_to (quality r) bLen (c + bLen)\<rparr>)
      else None)"

section \<open>Sample names and barcodes (\<^verbatim>\<open>utils.py\<close>)\<close>

text \<open>
  A \<open>char\<close> stands for the code point of the same number, so the strings of the model are
  the Python strings over the code points 0 to 255. \<open>py_isspace\<close> is \<^verbatim>\<open>str.isspace\<close>
  on these, the characters \<^verbatim>\<open>str.strip()\<close> removes; \<open>py_isalnum\<close> is
  \<^verbatim>\<open>str.isalnum\<close>, and the class \<^verbatim>\<open>\w\<close> of a Unicode pattern is \<open>py_isalnum\<close> or the
  underscore.
\<close>

definition py_isspace :: "char \<Rightarrow> bool" where
  "py_isspace c =
     (let n = (of_char c :: nat) in
      (9 \<le> n \<and> n \<le> 13) \<or> (28 \<le> n \<and> n \<le> 32) \<or> n = 133 \<or> n = 160)"

definition py_isalnum :: "char \<Rightarrow> bool" where
  "py_isalnum c =
     (let n = (of_char c :: nat) in
      (48 \<le> n \<and> n \<le> 57) \<or> (65 \<le> n \<and> n \<le> 90) \<or> (97 \<le> n \<and> n \<le> 122)
      \<or> n = 170 \<or> n = 178 \<or> n = 179 \<or> n = 181 \<or> n = 185 \<or> n = 186
      \<or> (188 \<le> n \<and> n \<le> 190) \<or> (192 \<le> n \<and> n \<le> 214)
      \<or> (216 \<le> n \<and> n \<le> 246) \<or> (248 \<le> n \<and> n \<le> 255))"

definition py_strip :: "string \<Rightarrow> string" where
  "py_strip s = rev (dropWhile py_isspace (rev (dropWhile py_isspace s)))"

definition replace_space_by_underscore :: "string \<Rightarrow> string" where
  "replace_space_by_underscore s = map (\<lambda>c. if c = CHR '' '' then CHR ''_'' else c) s"

text \<open>
  \<^verbatim>\<open>re.sub(r'(?u)[^-\w]', '', sample_name.strip().replace(' ', '_'))\<close>: every character
  that is neither a dash nor of the class \<^verbatim>\<open>\w\<close> is deleted.
\<close>

definition dash_or_word :: "char \<Rightarrow> bool" where
  "dash_or_word c \<longleftrightarrow> c = CHR ''-'' \<or> py_isalnum c \<or> c = CHR ''_''"

definition convert_to_filename :: "string \<Rightarrow> string" where
  "convert_to_filename sample_name =
     filter dash_or_word (replace_space_by_underscore (py_strip sample_name))"

text \<open>
  \<^verbatim>\<open>str.upper\<close> on the same code points: a lower-case letter loses the bit of value 32,
  the sharp s becomes \<^verbatim>\<open>SS\<close>. The upper-case forms of the code points 181 and 255 lie
  beyond 255; the model leaves these two characters as they are.
\<close>

definition upper_char :: "char \<Rightarrow> string" where
  "upper_char c =
     (let n = (of_char c :: nat) in
      if (97 \<le> n \<and> n \<le> 122) \<or> (224 \<le> n \<and> n \<le> 254 \<and> n \<noteq> 247)
      then [case c of Char b0 b1 b2 b3 b4 b5 b6 b7 \<Rightarrow> Char b0 b1 b2 b3 b4 False b6 b7]
      else if n = 223 then ''SS'' else [c])"

definition py_upper :: "string \<Rightarrow> string" where
  "py_upper s = concat (map upper_char s)"

section \<open>The sample table loaders\<close>

text \<open>
  The values the loaders store and compare: a string, or a dictionary from strings to
  values. The constructors are distinct, as a Python \<^verbatim>\<open>str\<close> never equals a
  \<^verbatim>\<open>dict\<close>.
\<close>

datatype pyval = PyStr string | PyDict "(string \<times> pyval) list"

datatype error =
    IndexError
  | KeyError string
  | SystemExit string
  | IOError string

text \<open>
  The input is the list of rows \<^verbatim>\<open>csv.reader\<close> yields, each a list of fields.
  \<^verbatim>\<open>line[0]\<close> and \<^verbatim>\<open>line[1]\<close> raise \<^verbatim>\<open>IndexError\<close> on a row that is too short.
  sample\_prep (\<^verbatim>\<open>demultiplex.py\<close>) writes a message and calls \<^verbatim>\<open>exit(1)\<close>;
  \<open>SystemExit\<close> carries the message.
\<close>

fun sample_prep_rows ::
  "string list list \<Rightarrow> (string, pyval) dict \<Rightarrow> error + (string, pyval) dict" where
  "sample_prep_rows [] sampleDict = Inr sampleDict"
| "sample_prep_rows ([] # rest) sampleDict = Inl IndexError"
| "sample_prep_rows ((c0 # cols) # rest) sampleDict =
     (if take 1 c0 = ''#'' then sample_prep_rows rest sampleDict
      else case cols of
        [] \<Rightarrow> Inl IndexError
      | c1 # _ \<Rightarrow>
          (let new_sample = convert_to_filename c0; new_barcode = py_upper c1 in
           if new_sample \<in> set (dict_keys sampleDict)
           then Inl (SystemExit (''Error: redundant sample identifier '' @ new_sample))
           else if PyStr new_barcode \<in> set (dict_values sampleDict)
           then Inl (SystemExit (''Error: redundant barcode '' @ new_barcode))
           else sample_prep_rows rest
                  (dict_set new_sample
                     (PyDict [(''name'', PyStr new_sample), (''barcode'', PyStr new_barcode)])
                     sampleDict)))"

definition sample_prep :: "string list list \<Rightarrow> error + (string, pyval) dict" where
  "sample_prep rows = sample_prep_rows rows []"

text \<open>tab\_delimited\_samples\_to\_dict (\<^verbatim>\<open>runner.py\<close> and \<^verbatim>\<open>pyinseq.py\<close>, the same body).\<close>

fun samples_to_dict_rows ::
  "string list list \<Rightarrow> (string, pyval) dict \<Rightarrow> error + (string, pyval) dict" where
  "samples_to_dict_rows [] samplesDict = Inr samplesDict"
| "samples_to_dict_rows ([] # rest) samplesDict = Inl IndexError"
| "samples_to_dict_rows ((c0 # cols) # rest) samplesDict =
     (if take 1 c0 = ''#'' then samples_to_dict_rows rest samplesDict
      else case cols of
        [] \<Rightarrow> Inl IndexError
      | c1 # _ \<Rightarrow>
          (let sample = convert_to_filename c0; barcode = py_upper c1 in
           if sample \<notin> set (dict_keys samplesDict)
              \<and> PyStr barcode \<notin> set (dict_values samplesDict)
           then samples_to_dict_rows rest
                  (dict_set sample (PyDict [(''barcode'', PyStr barcode)]) samplesDict)
           else Inl (IOError (''Error: duplicate sample '' @ sample @ '' barcode '' @ barcode))))"

definition tab_delimited_samples_to_dict ::
  "string list list \<Rightarrow> error + (string, pyval) dict" where
  "tab_delimited_samples_to_dict rows = samples_to_dict_rows rows []"

section \<open>The barcode classifier (\<^verbatim>\<open>demultiplex.py\<close>, demultiplex\_fastq and writeReads)\<close>














section \<open>Notions used in the statements\<close>

text \<open>Every value of the dictionary is itself a dictionary, as the loaders store them.\<close>

definition all_dicts :: "(string, pyval) dict \<Rightarrow> bool" where
  "all_dicts d \<longleftrightarrow>
     list_all (\<lambda>v. case v of PyDict _ \<Rightarrow> True | PyStr _ \<Rightarrow> False) (dict_values d)"

text \<open>A read is accepted by extract\_chromosome\_sequence when the pattern matches it.\<close>

definition accepted :: "read \<Rightarrow> bool" where
  "accepted r \<longleftrightarrow> pattern_search (sequence r) \<noteq> None"

text \<open>
  The count stored for a barcode and a genomic segment (0 when there is no entry), and
  the sum of all stored counts.
\<close>

definition count_of :: "insertion_dict \<Rightarrow> string \<Rightarrow> string \<Rightarrow> int" where
  "count_of d b g =
     (case map_of d b of
        None \<Rightarrow> 0
      | Some inner \<Rightarrow> (case map_of inner g of None \<Rightarrow> 0 | Some c \<Rightarrow> c))"

definition total_count :: "insertion_dict \<Rightarrow> int" where
  "total_count d = sum_list (map (\<lambda>(b, inner). sum_list (map snd inner)) d)"


text \<open>The substring occurs in the string at the index.\<close>

definition occurs_at :: "string \<Rightarrow> string \<Rightarrow> nat \<Rightarrow> bool" where
  "occurs_at sub s i \<longleftrightarrow> i + length sub \<le> length s \<and> take (length sub) (drop i s) = sub"


text \<open>
  The shape the pattern asks of group 1 (four characters, each A, C, G or T) and of the
  characters of group 2 (the first N, A, C, G or T, the others A, C, G or T, the last two
  TA).
\<close>

definition barcode_ok :: "string \<Rightarrow> bool" where
  "barcode_ok b \<longleftrightarrow> length b = 4 \<and> list_all is_ACGT b"

definition segment_chars_ok :: "string \<Rightarrow> bool" where
  "segment_chars_ok g \<longleftrightarrow>
     list_all is_NACGT (take 1 g) \<and> list_all is_ACGT (drop 1 g)
     \<and> 2 \<le> length g \<and> drop (length g - 2) g = ''TA''"

text \<open>
  The keys of the aggregation and of each inner dictionary are pairwise distinct, so
  that a sum over the entries is a sum over the keys; every stored count is at least 1.
\<close>

definition well_formed :: "insertion_dict \<Rightarrow> bool" where
  "well_formed d \<longleftrightarrow>
     distinct (map fst d) \<and> list_all (\<lambda>(b, inner). distinct (map fst inner)) d"

definition counts_positive :: "insertion_dict \<Rightarrow> bool" where
  "counts_positive d \<longleftrightarrow> list_all (\<lambda>e. list_all (\<lambda>p. 1 \<le> snd p) (snd e)) d"

text \<open>The index is the lowest at which the substring occurs.\<close>

definition first_occurrence :: "string \<Rightarrow> string \<Rightarrow> nat \<Rightarrow> bool" where
  "first_occurrence sub s i \<longleftrightarrow> occurs_at sub s i \<and> list_all (\<lambda>j. \<not> occurs_at sub s j) [0..<i]"










section \<open>Results\<close>

subsection \<open>The sample table\<close>







text \<open>
  The test \<^verbatim>\<open>new_barcode in sampleDict.values()\<close> compares a string with the stored
  values, which are dictionaries: it is never true, so neither loader ever reports a
  repeated barcode.
\<close>

lemma all_dicts_no_str: "all_dicts d \<Longrightarrow> PyStr b \<notin> set (dict_values d)"
  by (auto simp: all_dicts_def list_all_iff)

lemma all_dicts_set: "all_dicts d \<Longrightarrow> all_dicts (dict_set k (PyDict e) d)"
  by (induction d) (auto simp: all_dicts_def dict_values_def)

lemma sample_prep_rows_no_barcode_exit:
  "all_dicts d \<Longrightarrow>
   sample_prep_rows rows d \<noteq> Inl (SystemExit (''Error: redundant barcode '' @ b))"
proof (induction rows d rule: sample_prep_rows.induct)
  case (3 c0 cols rest sampleDict)
  then show ?case
    by (auto simp: Let_def all_dicts_no_str all_dicts_set split: list.splits)
qed simp_all

text \<open>
  C1. A sample table in which the barcode ACGT stands on two lines, under the sample
  names s1 and s2, should make the loader fail. Both loaders return a mapping that
  holds the two samples with the same barcode; the sibling test for a repeated sample
  name does fail the load.
\<close>

theorem duplicate_barcode_is_loaded:
  "sample_prep [[''s1'', ''ACGT''], [''s2'', ''ACGT'']]
     = Inr [(''s1'', PyDict [(''name'', PyStr ''s1''), (''barcode'', PyStr ''ACGT'')]),
            (''s2'', PyDict [(''name'', PyStr ''s2''), (''barcode'', PyStr ''ACGT'')])]
   \<and> tab_delimited_samples_to_dict [[''s1'', ''ACGT''], [''s2'', ''ACGT'']]
     = Inr [(''s1'', PyDict [(''barcode'', PyStr ''ACGT'')]),
            (''s2'', PyDict [(''barcode'', PyStr ''ACGT'')])]
   \<and> sample_prep [[''s1'', ''ACGT''], [''s1'', ''TTTT'']]
     = Inl (SystemExit ''Error: redundant sample identifier s1'')
   \<and> tab_delimited_samples_to_dict [[''s1'', ''ACGT''], [''s1'', ''TTTT'']]
     = Inl (IOError ''Error: duplicate sample s1 barcode TTTT'')"
  by (simp add: sample_prep_def tab_delimited_samples_to_dict_def convert_to_filename_def
      py_strip_def replace_space_by_underscore_def dash_or_word_def py_isspace_def
      py_isalnum_def py_upper_def upper_char_def dict_keys_def dict_values_def Let_def)

subsection \<open>The extractor\<close>

text \<open>
  C6. Three copies of the read with sequence
  \<^verbatim>\<open>"ACGT" + "AAAAAAAAAAAAAATA" + "ACAGGTTG"\<close> give exactly the aggregation
  \<^verbatim>\<open>{"ACGT": {"AAAAAAAAAAAAAATA": 3}}\<close>: the entry is created by the first copy (count 1)
  and incremented by the second and the third.
\<close>

theorem extract_three_copies:
  "extract_chromosome_sequence
     (replicate 3 \<lparr>name = ''r1'', sequence = ''ACGT'' @ ''AAAAAAAAAAAAAATA'' @ ''ACAGGTTG'',
                   quality = replicate 28 CHR ''I''\<rparr>)
   = [(''ACGT'', [(''AAAAAAAAAAAAAATA'', 3)])]
   \<and> extract_chromosome_sequence
     (replicate 1 \<lparr>name = ''r1'', sequence = ''ACGT'' @ ''AAAAAAAAAAAAAATA'' @ ''ACAGGTTG'',
                   quality = replicate 28 CHR ''I''\<rparr>)
   = [(''ACGT'', [(''AAAAAAAAAAAAAATA'', 1)])]
   \<and> extract_chromosome_sequence
     (replicate 2 \<lparr>name = ''r1'', sequence = ''ACGT'' @ ''AAAAAAAAAAAAAATA'' @ ''ACAGGTTG'',
                   quality = replicate 28 CHR ''I''\<rparr>)
   = [(''ACGT'', [(''AAAAAAAAAAAAAATA'', 2)])]"
  by (simp add: extract_chromosome_sequence_def extract_from_def extract_step_def
      pattern_search_def match_with_def is_ACGT_def is_NACGT_def numeral_3_eq_3 numeral_2_eq_2)

lemma map_of_dict_set: "map_of (dict_set k v d) = (map_of d)(k \<mapsto> v)"
  by (induction d) (auto simp: fun_eq_iff)

lemma list_all_take: "list_all P xs \<Longrightarrow> list_all P (take n xs)"
  by (auto simp: list_all_iff dest: in_set_takeD)

lemma match_with_decomposed:
  assumes "barcode_ok b" "segment_chars_ok g" "length g = n + 3"
  shows "match_with n (b @ g @ ''ACAGGTTG'' @ rest) = Some (b, g)"
proof -
  from assms have lb: "length b = 4" and ab: "list_all is_ACGT b"
    by (simp_all add: barcode_ok_def)
  from assms have g1: "list_all is_NACGT (take 1 g)" and g2: "list_all is_ACGT (drop 1 g)"
    and g3: "drop (n + 1) g = ''TA''"
    by (simp_all add: segment_chars_ok_def)
  have "list_all is_ACGT (take n (drop 1 g))"
    using g2 by (rule list_all_take)
  with lb ab g1 g3 assms(3) show ?thesis
    by (simp add: match_with_def)
qed

lemma match_with_Some:
  assumes "match_with n s = Some (b, g)"
  shows "barcode_ok b \<and> segment_chars_ok g \<and> length g = n + 3
         \<and> s = b @ g @ ''ACAGGTTG'' @ drop (15 + n) s"
proof -
  from assms have c: "length (take 4 s) = 4" "list_all is_ACGT (take 4 s)"
    "length (take 1 (drop 4 s)) = 1" "list_all is_NACGT (take 1 (drop 4 s))"
    "length (take n (drop 5 s)) = n" "list_all is_ACGT (take n (drop 5 s))"
    "take 2 (drop (5 + n) s) = ''TA''" "take 8 (drop (7 + n) s) = ''ACAGGTTG''"
    and b: "b = take 4 s" and g: "g = take (3 + n) (drop 4 s)"
    by (auto simp: match_with_def split: if_splits)
  have len: "15 + n \<le> length s"
  proof -
    have "length (take 8 (drop (7 + n) s)) = 8" using c(8) by simp
    then show ?thesis by (simp add: min_def split: if_splits)
  qed
  have lg: "length g = n + 3" using len g by simp
  have t1: "take (3 + n) (drop 4 s) = take 1 (drop 4 s) @ take (n + 2) (drop 5 s)"
  proof -
    have "3 + n = 1 + (n + 2)" by simp
    then have "take (3 + n) (drop 4 s) = take (1 + (n + 2)) (drop 4 s)" by (simp only:)
    also have "\<dots> = take 1 (drop 4 s) @ take (n + 2) (drop 1 (drop 4 s))"
      by (simp only: take_add)
    finally show ?thesis by simp
  qed
  have t2: "take (n + 2) (drop 5 s) = take n (drop 5 s) @ take 2 (drop (5 + n) s)"
  proof -
    have "take (n + 2) (drop 5 s) = take n (drop 5 s) @ take 2 (drop n (drop 5 s))"
      by (simp only: take_add)
    then show ?thesis by (simp add: add.commute)
  qed
  have split3: "g = take 1 (drop 4 s) @ take n (drop 5 s) @ ''TA''"
    using g t1 t2 c(7) by simp
  have d1: "drop 1 g = take n (drop 5 s) @ ''TA''"
    using split3 c(3) by simp
  have "list_all is_ACGT (drop 1 g)"
    using d1 c(6) by (simp add: is_ACGT_def)
  moreover have "take 1 g = take 1 (drop 4 s)"
    using split3 c(3) by simp
  moreover have "drop (length g - 2) g = ''TA''"
    using split3 c(3) c(5) lg by simp
  ultimately have seg: "segment_chars_ok g"
    using c(4) lg by (simp add: segment_chars_ok_def)
  have "s = take (15 + n) s @ drop (15 + n) s" by simp
  also have "take (15 + n) s = take (7 + n) s @ take 8 (drop (7 + n) s)"
  proof -
    have "15 + n = (7 + n) + 8" by simp
    then have "take (15 + n) s = take ((7 + n) + 8) s" by (simp only:)
    then show ?thesis by (simp only: take_add)
  qed
  also have "take (7 + n) s = take 4 s @ take (3 + n) (drop 4 s)"
  proof -
    have "7 + n = 4 + (3 + n)" by simp
    then have "take (7 + n) s = take (4 + (3 + n)) s" by (simp only:)
    then show ?thesis by (simp only: take_add)
  qed
  finally have "s = b @ g @ ''ACAGGTTG'' @ drop (15 + n) s"
    using b g c(8) by simp
  with seg lg c(1,2) b show ?thesis
    by (simp add: barcode_ok_def)
qed

lemma match_14_none_if_16:
  assumes "length b = 4" "length g = 16"
  shows "match_with 14 (b @ g @ ''ACAGGTTG'' @ rest) = None"
  using assms by (simp add: match_with_def)

lemma pattern_search_Some_iff:
  "pattern_search s = Some (b, g) \<longleftrightarrow>
     barcode_ok b \<and> segment_chars_ok g \<and> (length g = 16 \<or> length g = 17)
     \<and> (\<exists>rest. s = b @ g @ ''ACAGGTTG'' @ rest)"
proof
  assume "pattern_search s = Some (b, g)"
  then have "match_with 14 s = Some (b, g) \<or> match_with 13 s = Some (b, g)"
    by (auto simp: pattern_search_def split: option.splits)
  then show "barcode_ok b \<and> segment_chars_ok g \<and> (length g = 16 \<or> length g = 17)
     \<and> (\<exists>rest. s = b @ g @ ''ACAGGTTG'' @ rest)"
    by (auto dest!: match_with_Some)
next
  assume r: "barcode_ok b \<and> segment_chars_ok g \<and> (length g = 16 \<or> length g = 17)
     \<and> (\<exists>rest. s = b @ g @ ''ACAGGTTG'' @ rest)"
  then obtain rest where s: "s = b @ g @ ''ACAGGTTG'' @ rest" by blast
  from r have "length g = 16 \<or> length g = 17" by simp
  then show "pattern_search s = Some (b, g)"
  proof
    assume l: "length g = 16"
    have "match_with 14 s = None"
      unfolding s using r l by (intro match_14_none_if_16) (simp_all add: barcode_ok_def)
    moreover have "match_with 13 s = Some (b, g)"
      unfolding s using r l by (intro match_with_decomposed) simp_all
    ultimately show ?thesis by (simp add: pattern_search_def)
  next
    assume l: "length g = 17"
    have "match_with 14 s = Some (b, g)"
      unfolding s using r l by (intro match_with_decomposed) simp_all
    then show ?thesis by (simp add: pattern_search_def)
  qed
qed

lemma dict_set_keys:
  "map fst (dict_set k v d) = (if k \<in> set (map fst d) then map fst d else map fst d @ [k])"
  by (induction d) (auto split: if_splits)

lemma distinct_dict_set: "distinct (map fst d) \<Longrightarrow> distinct (map fst (dict_set k v d))"
  by (simp add: dict_set_keys)

lemma set_dict_set: "set (dict_set k v d) \<subseteq> insert (k, v) (set d)"
  by (induction d) (auto split: if_splits)

lemma sum_dict_set_new:
  fixes f :: "'k \<times> 'v \<Rightarrow> int"
  shows "map_of d k = None \<Longrightarrow> sum_list (map f (dict_set k v d)) = sum_list (map f d) + f (k, v)"
  by (induction d) (auto split: if_splits)

lemma sum_dict_set_old:
  fixes f :: "'k \<times> 'v \<Rightarrow> int"
  shows "map_of d k = Some v0 \<Longrightarrow>
         sum_list (map f (dict_set k v d)) = sum_list (map f d) - f (k, v0) + f (k, v)"
  by (induction d) (auto split: if_splits)

lemma extract_step_rejected: "\<not> accepted r \<Longrightarrow> extract_step d r = d"
  by (cases "pattern_search (sequence r)") (simp_all add: accepted_def extract_step_def)

lemma count_of_extract_step:
  assumes "pattern_search (sequence r) = Some (b, g)"
  shows "count_of (extract_step d r) b' g'
         = count_of d b' g' + (if b' = b \<and> g' = g then 1 else 0)"
  using assms
  by (auto simp: extract_step_def count_of_def map_of_dict_set split: option.splits)

lemma total_count_extract_step:
  "total_count (extract_step d r) = total_count d + (if accepted r then 1 else 0)"
proof (cases "pattern_search (sequence r)")
  case None
  then show ?thesis by (simp add: accepted_def extract_step_def)
next
  case (Some m)
  obtain b g where m: "m = (b, g)" by (cases m)
  show ?thesis
  proof (cases "map_of d b")
    case None
    with Some m show ?thesis
      by (simp add: accepted_def extract_step_def total_count_def sum_dict_set_new)
  next
    case inner: (Some inner)
    show ?thesis
    proof (cases "map_of inner g")
      case None
      with Some m inner show ?thesis
        by (simp add: accepted_def extract_step_def total_count_def sum_dict_set_new
            sum_dict_set_old)
    next
      case (Some c)
      with \<open>pattern_search (sequence r) = Some m\<close> m inner show ?thesis
        by (simp add: accepted_def extract_step_def total_count_def sum_dict_set_old)
    qed
  qed
qed

lemma well_formed_dict_set:
  assumes "well_formed d" "distinct (map fst inner)"
  shows "well_formed (dict_set b inner d)"
proof -
  have "list_all (\<lambda>(b, inner). distinct (map fst inner)) (dict_set b inner d)"
    using assms set_dict_set [of b inner d]
    by (auto simp: well_formed_def list_all_iff)
  with assms show ?thesis
    by (simp add: well_formed_def distinct_dict_set)
qed

lemma well_formed_lookup:
  "well_formed d \<Longrightarrow> map_of d b = Some inner \<Longrightarrow> distinct (map fst inner)"
  by (auto simp: well_formed_def list_all_iff dest!: map_of_SomeD)

lemma well_formed_extract_step: "well_formed d \<Longrightarrow> well_formed (extract_step d r)"
  by (auto simp: extract_step_def split: option.splits
      intro!: well_formed_dict_set distinct_dict_set dest: well_formed_lookup)

lemma occurs_at_0: "occurs_at sub s 0 \<longleftrightarrow> take (length sub) s = sub"
proof -
  have "length sub \<le> length s" if "take (length sub) s = sub"
  proof -
    from that have "length (take (length sub) s) = length sub" by simp
    then show ?thesis by (simp add: min_def split: if_splits)
  qed
  then show ?thesis by (auto simp: occurs_at_def)
qed

lemma occurs_at_Suc: "occurs_at sub (c # cs) (Suc j) \<longleftrightarrow> occurs_at sub cs j"
  by (simp add: occurs_at_def)

lemma occurs_at_Nil: "occurs_at sub [] j \<longleftrightarrow> sub = [] \<and> j = 0"
  by (auto simp: occurs_at_def)

lemma find_from_cases:
  "(find_from sub s i = - 1 \<and> (\<forall>j. \<not> occurs_at sub s j))
   \<or> (\<exists>j. find_from sub s i = int (i + j) \<and> occurs_at sub s j \<and> (\<forall>k<j. \<not> occurs_at sub s k))"
proof (induction s arbitrary: i)
  case Nil
  then show ?case by (auto simp: occurs_at_Nil)
next
  case (Cons c cs)
  show ?case
  proof (cases "take (length sub) (c # cs) = sub")
    case True
    then have "find_from sub (c # cs) i = int (i + 0)" "occurs_at sub (c # cs) 0"
      by (simp_all add: occurs_at_0)
    then show ?thesis by blast
  next
    case False
    then have f: "find_from sub (c # cs) i = find_from sub cs (i + 1)"
      and n0: "\<not> occurs_at sub (c # cs) 0"
      by (simp_all add: occurs_at_0)
    from Cons.IH [of "i + 1"] show ?thesis
    proof (elim disjE conjE exE)
      assume a: "find_from sub cs (i + 1) = - 1" "\<forall>j. \<not> occurs_at sub cs j"
      have "\<not> occurs_at sub (c # cs) j" for j
        using a(2) n0 by (cases j) (simp_all add: occurs_at_Suc)
      with a(1) f show ?thesis by simp
    next
      fix j
      assume a: "find_from sub cs (i + 1) = int (i + 1 + j)" "occurs_at sub cs j"
        "\<forall>k<j. \<not> occurs_at sub cs k"
      have "\<not> occurs_at sub (c # cs) k" if "k < Suc j" for k
        using a(3) n0 that by (cases k) (simp_all add: occurs_at_Suc)
      moreover have "find_from sub (c # cs) i = int (i + Suc j)" using a(1) f by simp
      moreover have "occurs_at sub (c # cs) (Suc j)" using a(2) by (simp add: occurs_at_Suc)
      ultimately show ?thesis by blast
    qed
  qed
qed

lemma first_occurrence_iff:
  "first_occurrence sub s i \<longleftrightarrow> occurs_at sub s i \<and> (\<forall>k<i. \<not> occurs_at sub s k)"
  by (auto simp: first_occurrence_def list_all_iff)

lemma first_occurrence_unique:
  "first_occurrence sub s i \<Longrightarrow> first_occurrence sub s j \<Longrightarrow> i = j"
  by (metis first_occurrence_iff linorder_neqE_nat)

lemma py_find_first: "first_occurrence sub s i \<Longrightarrow> py_find s sub = int i"
  using find_from_cases [of sub s 0]
  by (auto simp: py_find_def first_occurrence_iff) (metis linorder_neqE_nat)

lemma py_find_nonneg: "0 \<le> py_find s sub \<Longrightarrow> first_occurrence sub s (nat (py_find s sub))"
  using find_from_cases [of sub s 0] by (auto simp: py_find_def first_occurrence_iff)

lemma trim_read_iff:
  "trim_read r \<noteq> None \<longleftrightarrow>
     first_occurrence ''TAACAGGTTG'' (sequence r) 18 \<or> first_occurrence ''TAACAGGTTG'' (sequence r) 19"
proof
  assume "trim_read r \<noteq> None"
  then have c: "16 \<le> chromosomeSeq (sequence r)" "chromosomeSeq (sequence r) < 18"
    by (auto simp: trim_read_def Let_def split: if_splits)
  then have "py_find (sequence r) ''TAACAGGTTG'' = 18 \<or> py_find (sequence r) ''TAACAGGTTG'' = 19"
    by (auto simp: chromosomeSeq_def)
  then show "first_occurrence ''TAACAGGTTG'' (sequence r) 18 \<or> first_occurrence ''TAACAGGTTG'' (sequence r) 19"
    using py_find_nonneg [of "sequence r" "''TAACAGGTTG''"] by auto
next
  assume "first_occurrence ''TAACAGGTTG'' (sequence r) 18 \<or> first_occurrence ''TAACAGGTTG'' (sequence r) 19"
  then have "py_find (sequence r) ''TAACAGGTTG'' = 18 \<or> py_find (sequence r) ''TAACAGGTTG'' = 19"
    by (auto dest: py_find_first)
  then show "trim_read r \<noteq> None"
    by (auto simp: trim_read_def chromosomeSeq_def Let_def)
qed

lemma counts_positive_lookup:
  "counts_positive d \<Longrightarrow> map_of d b = Some inner \<Longrightarrow> map_of inner g = Some c \<Longrightarrow> 1 \<le> c"
  by (fastforce simp: counts_positive_def list_all_iff dest!: map_of_SomeD)

lemma counts_positive_dict_set:
  assumes "counts_positive d" "list_all (\<lambda>p. 1 \<le> snd p) inner"
  shows "counts_positive (dict_set b inner d)"
proof -
  have "list_all (\<lambda>p. 1 \<le> snd p) (snd e)" if "e \<in> set (dict_set b inner d)" for e
  proof -
    from that set_dict_set [of b inner d] have "e = (b, inner) \<or> e \<in> set d" by blast
    with assms show ?thesis by (auto simp: counts_positive_def list_all_iff)
  qed
  then show ?thesis by (auto simp: counts_positive_def list_all_iff)
qed

lemma inner_positive_dict_set:
  assumes "list_all (\<lambda>p. (1::int) \<le> snd p) inner" "1 \<le> c"
  shows "list_all (\<lambda>p. 1 \<le> snd p) (dict_set g c inner)"
proof -
  have "1 \<le> snd e" if "e \<in> set (dict_set g c inner)" for e
  proof -
    from that set_dict_set [of g c inner] have "e = (g, c) \<or> e \<in> set inner" by blast
    with assms show ?thesis by (auto simp: list_all_iff)
  qed
  then show ?thesis by (auto simp: list_all_iff)
qed

lemma counts_positive_inner:
  "counts_positive d \<Longrightarrow> map_of d b = Some inner \<Longrightarrow> list_all (\<lambda>p. 1 \<le> snd p) inner"
  by (fastforce simp: counts_positive_def list_all_iff dest!: map_of_SomeD)

lemma counts_positive_extract_step:
  assumes "counts_positive d"
  shows "counts_positive (extract_step d r)"
proof (cases "pattern_search (sequence r)")
  case None
  with assms show ?thesis by (simp add: extract_step_def)
next
  case (Some m)
  obtain b g where m: "m = (b, g)" by (cases m)
  show ?thesis
  proof (cases "map_of d b")
    case None
    with Some m assms show ?thesis
      by (simp add: extract_step_def counts_positive_dict_set)
  next
    case inner: (Some inner)
    note pos = counts_positive_inner [OF assms inner]
    show ?thesis
    proof (cases "map_of inner g")
      case None
      with Some m inner assms pos show ?thesis
        by (simp add: extract_step_def counts_positive_dict_set inner_positive_dict_set)
    next
      case c: (Some c)
      have "1 \<le> c" using assms inner c by (rule counts_positive_lookup)
      with Some m inner c assms pos show ?thesis
        by (simp add: extract_step_def counts_positive_dict_set inner_positive_dict_set)
    qed
  qed
qed

lemma extract_from_Cons: "extract_from d (r # rs) = extract_from (extract_step d r) rs"
  by (simp add: extract_from_def)

lemma extract_from_append: "extract_from d (xs @ ys) = extract_from (extract_from d xs) ys"
  by (simp add: extract_from_def)

lemma extract_from_invariant:
  "well_formed d \<Longrightarrow> counts_positive d \<Longrightarrow>
   well_formed (extract_from d rs) \<and> counts_positive (extract_from d rs)"
proof (induction rs arbitrary: d)
  case Nil
  then show ?case by (simp add: extract_from_def)
next
  case (Cons r rs)
  then show ?case
    by (simp add: extract_from_Cons well_formed_extract_step counts_positive_extract_step)
qed

lemma total_count_extract_from:
  "total_count (extract_from d rs) = total_count d + int (length (filter accepted rs))"
proof (induction rs arbitrary: d)
  case Nil
  then show ?case by (simp add: extract_from_def)
next
  case (Cons r rs)
  then show ?case
    by (simp add: extract_from_Cons total_count_extract_step)
qed

lemma count_of_step_mono: "count_of d b g \<le> count_of (extract_step d r) b g"
proof (cases "pattern_search (sequence r)")
  case None
  then show ?thesis by (simp add: extract_step_def)
next
  case (Some m)
  then show ?thesis by (cases m) (simp add: count_of_extract_step)
qed

lemma count_of_extract_from_mono: "count_of d b g \<le> count_of (extract_from d rs) b g"
proof (induction rs arbitrary: d)
  case Nil
  then show ?case by (simp add: extract_from_def)
next
  case (Cons r rs)
  have "count_of d b g \<le> count_of (extract_step d r) b g" by (rule count_of_step_mono)
  also have "\<dots> \<le> count_of (extract_from (extract_step d r) rs) b g" by (rule Cons.IH)
  finally show ?case by (simp add: extract_from_Cons)
qed

text \<open>
  C8. At every point of the extraction, that is after any number \<open>n\<close> of reads of any
  input, every count stored in the aggregation is at least 1 and the counts add up to
  the number of reads accepted so far (the keys are pairwise distinct, so the sum over
  the entries is the sum over the keys); and no count of a later point \<open>m\<close> is smaller
  than at \<open>n\<close>, a missing entry counting as 0, so no entry is removed or decremented.
\<close>

theorem aggregation_invariant:
  "well_formed (extract_chromosome_sequence (take n reads))
   \<and> (\<forall>b inner g c. map_of (extract_chromosome_sequence (take n reads)) b = Some inner
          \<longrightarrow> map_of inner g = Some c \<longrightarrow> 1 \<le> c)
   \<and> total_count (extract_chromosome_sequence (take n reads))
       = int (length (filter accepted (take n reads)))
   \<and> (n \<le> m \<longrightarrow>
        (\<forall>b g. count_of (extract_chromosome_sequence (take n reads)) b g
               \<le> count_of (extract_chromosome_sequence (take m reads)) b g))"
proof -
  let ?d = "extract_chromosome_sequence (take n reads)"
  have start: "well_formed []" "counts_positive []" "total_count [] = 0"
    by (simp_all add: well_formed_def counts_positive_def total_count_def)
  have inv: "well_formed ?d" "counts_positive ?d"
    using extract_from_invariant [OF start(1,2), of "take n reads"]
    by (simp_all add: extract_chromosome_sequence_def)
  have total: "total_count ?d = int (length (filter accepted (take n reads)))"
    using total_count_extract_from [of "[]" "take n reads"] start(3)
    by (simp add: extract_chromosome_sequence_def)
  have mono: "count_of ?d b g \<le> count_of (extract_chromosome_sequence (take m reads)) b g"
    if "n \<le> m" for b g
  proof -
    have "take m reads = take n reads @ drop n (take m reads)"
      using that by (metis append_take_drop_id min.absorb1 take_take)
    then have "extract_chromosome_sequence (take m reads)
               = extract_from ?d (drop n (take m reads))"
      by (metis extract_chromosome_sequence_def extract_from_append)
    then show ?thesis by (simp add: count_of_extract_from_mono)
  qed
  from inv total mono show ?thesis
    by (blast intro: counts_positive_lookup)
qed

text \<open>
  The statement of C8 at a stream of three reads, the second of which is not accepted,
  after the first read and after the third.
\<close>

theorem aggregation_invariant_witness:
  "map_of (extract_chromosome_sequence (take 1
      [\<lparr>name = ''r1'', sequence = ''ACGT'' @ ''AAAAAAAAAAAAAATA'' @ ''ACAGGTTG'', quality = ''''\<rparr>,
       \<lparr>name = ''r2'', sequence = ''NCGT'' @ ''AAAAAAAAAAAAAATA'' @ ''ACAGGTTG'', quality = ''''\<rparr>,
       \<lparr>name = ''r3'', sequence = ''ACGT'' @ ''AAAAAAAAAAAAAATA'' @ ''ACAGGTTG'', quality = ''''\<rparr>]))
     ''ACGT'' = Some [(''AAAAAAAAAAAAAATA'', 1)]
   \<and> map_of [(''AAAAAAAAAAAAAATA'', 1::int)] ''AAAAAAAAAAAAAATA'' = Some 1
   \<and> (1::int) \<le> 1
   \<and> total_count (extract_chromosome_sequence (take 3
      [\<lparr>name = ''r1'', sequence = ''ACGT'' @ ''AAAAAAAAAAAAAATA'' @ ''ACAGGTTG'', quality = ''''\<rparr>,
       \<lparr>name = ''r2'', sequence = ''NCGT'' @ ''AAAAAAAAAAAAAATA'' @ ''ACAGGTTG'', quality = ''''\<rparr>,
       \<lparr>name = ''r3'', sequence = ''ACGT'' @ ''AAAAAAAAAAAAAATA'' @ ''ACAGGTTG'', quality = ''''\<rparr>]))
     = 2
   \<and> (1::nat) \<le> 3
   \<and> count_of (extract_chromosome_sequence (take 1
      [\<lparr>name = ''r1'', sequence = ''ACGT'' @ ''AAAAAAAAAAAAAATA'' @ ''ACAGGTTG'', quality = ''''\<rparr>,
       \<lparr>name = ''r2'', sequence = ''NCGT'' @ ''AAAAAAAAAAAAAATA'' @ ''ACAGGTTG'', quality = ''''\<rparr>,
       \<lparr>name = ''r3'', sequence = ''ACGT'' @ ''AAAAAAAAAAAAAATA'' @ ''ACAGGTTG'', quality = ''''\<rparr>]))
       ''ACGT'' ''AAAAAAAAAAAAAATA''
     \<le> count_of (extract_chromosome_sequence (take 3
      [\<lparr>name = ''r1'', sequence = ''ACGT'' @ ''AAAAAAAAAAAAAATA'' @ ''ACAGGTTG'', quality = ''''\<rparr>,
       \<lparr>name = ''r2'', sequence = ''NCGT'' @ ''AAAAAAAAAAAAAATA'' @ ''ACAGGTTG'', quality = ''''\<rparr>,
       \<lparr>name = ''r3'', sequence = ''ACGT'' @ ''AAAAAAAAAAAAAATA'' @ ''ACAGGTTG'', quality = ''''\<rparr>]))
       ''ACGT'' ''AAAAAAAAAAAAAATA''"
proof -
  let ?reads = "[\<lparr>name = ''r1'', sequence = ''ACGT'' @ ''AAAAAAAAAAAAAATA'' @ ''ACAGGTTG'', quality = ''''\<rparr>,
       \<lparr>name = ''r2'', sequence = ''NCGT'' @ ''AAAAAAAAAAAAAATA'' @ ''ACAGGTTG'', quality = ''''\<rparr>,
       \<lparr>name = ''r3'', sequence = ''ACGT'' @ ''AAAAAAAAAAAAAATA'' @ ''ACAGGTTG'', quality = ''''\<rparr>]"
  have first: "map_of (extract_chromosome_sequence (take 1 ?reads)) ''ACGT''
               = Some [(''AAAAAAAAAAAAAATA'', 1)]"
    by (simp add: extract_chromosome_sequence_def extract_from_def extract_step_def
        pattern_search_def match_with_def is_ACGT_def is_NACGT_def)
  have acc: "length (filter accepted (take 3 ?reads)) = 2"
    by (simp add: accepted_def pattern_search_def match_with_def is_ACGT_def is_NACGT_def)
  from aggregation_invariant [of 1 ?reads 3] aggregation_invariant [of 3 ?reads 3] first acc
  show ?thesis by simp
qed

text \<open>
  C2, as the code has it. The first four characters are the barcode key only when each
  of them is A, C, G or T: a read made of such a prefix, a segment of 16 or 17
  characters of the shape the pattern asks (ending in TA) and the anchor ACAGGTTG is
  accepted, and the count under that prefix and that segment goes up by one; a read
  whose first four characters hold any other character (N for one) is not accepted and
  leaves the aggregation as it was.
\<close>

theorem barcode_checked_by_pattern:
  "(barcode_ok b \<and> segment_chars_ok g \<and> (length g = 16 \<or> length g = 17) \<longrightarrow>
      accepted \<lparr>name = n, sequence = b @ g @ ''ACAGGTTG'' @ rest, quality = q\<rparr>
      \<and> take 4 (b @ g @ ''ACAGGTTG'' @ rest) = b
      \<and> count_of (extract_step d \<lparr>name = n, sequence = b @ g @ ''ACAGGTTG'' @ rest, quality = q\<rparr>) b g
          = count_of d b g + 1)
   \<and> (\<not> list_all is_ACGT (take 4 (sequence r)) \<longrightarrow> \<not> accepted r \<and> extract_step d' r = d')"
proof (intro conjI impI)
  assume a: "barcode_ok b \<and> segment_chars_ok g \<and> (length g = 16 \<or> length g = 17)"
  let ?r = "\<lparr>name = n, sequence = b @ g @ ''ACAGGTTG'' @ rest, quality = q\<rparr>"
  from a have m: "pattern_search (sequence ?r) = Some (b, g)"
    by (simp add: pattern_search_Some_iff)
  then show "accepted ?r" by (simp add: accepted_def)
  from a show "take 4 (b @ g @ ''ACAGGTTG'' @ rest) = b" by (simp add: barcode_ok_def)
  from count_of_extract_step [OF m, of d b g]
  show "count_of (extract_step d ?r) b g = count_of d b g + 1" by simp
next
  assume a: "\<not> list_all is_ACGT (take 4 (sequence r))"
  have "pattern_search (sequence r) = None"
  proof (cases "pattern_search (sequence r)")
    case (Some m)
    obtain b g where "m = (b, g)" by (cases m)
    with Some have "barcode_ok b" "\<exists>rest. sequence r = b @ g @ ''ACAGGTTG'' @ rest"
      by (simp_all add: pattern_search_Some_iff)
    then have "list_all is_ACGT (take 4 (sequence r))"
      by (auto simp: barcode_ok_def)
    with a show ?thesis by simp
  qed simp
  then show "\<not> accepted r" by (simp add: accepted_def)
  then show "extract_step d' r = d'" by (rule extract_step_rejected)
qed

text \<open>The statement at a read with the barcode ACGT and at a read with the prefix ACNT.\<close>

theorem barcode_checked_by_pattern_witness:
  "accepted \<lparr>name = ''r1'', sequence = ''ACGT'' @ ''NAAAAAAAAAAAAATA'' @ ''ACAGGTTG'' @ ''CC'', quality = ''''\<rparr>
   \<and> count_of (extract_step [] \<lparr>name = ''r1'', sequence = ''ACGT'' @ ''NAAAAAAAAAAAAATA'' @ ''ACAGGTTG'' @ ''CC'', quality = ''''\<rparr>)
        ''ACGT'' ''NAAAAAAAAAAAAATA'' = 1
   \<and> \<not> accepted \<lparr>name = ''r2'', sequence = ''ACNT'' @ ''AAAAAAAAAAAAAATA'' @ ''ACAGGTTG'', quality = ''''\<rparr>
   \<and> extract_step [] \<lparr>name = ''r2'', sequence = ''ACNT'' @ ''AAAAAAAAAAAAAATA'' @ ''ACAGGTTG'', quality = ''''\<rparr> = []"
  using barcode_checked_by_pattern [of "''ACGT''" "''NAAAAAAAAAAAAATA''" "''r1''" "''CC''" "''''" "[]"
      "\<lparr>name = ''r2'', sequence = ''ACNT'' @ ''AAAAAAAAAAAAAATA'' @ ''ACAGGTTG'', quality = ''''\<rparr>" "[]"]
  by (simp add: barcode_ok_def segment_chars_ok_def is_ACGT_def is_NACGT_def count_of_def)

text \<open>
  C2 as stated fails: the read NCGT, then a 16-base segment ending in TA, then the
  anchor, is not accepted, and nothing is aggregated under NCGT.
\<close>

theorem barcode_with_N_rejected:
  "\<not> accepted \<lparr>name = ''r1'', sequence = ''NCGT'' @ ''AAAAAAAAAAAAAATA'' @ ''ACAGGTTG'',
                quality = replicate 28 CHR ''I''\<rparr>
   \<and> extract_chromosome_sequence
       [\<lparr>name = ''r1'', sequence = ''NCGT'' @ ''AAAAAAAAAAAAAATA'' @ ''ACAGGTTG'',
         quality = replicate 28 CHR ''I''\<rparr>] = []"
  by (simp add: accepted_def extract_chromosome_sequence_def extract_from_def extract_step_def
      pattern_search_def match_with_def is_ACGT_def is_NACGT_def)

lemma rejected_15_18:
  assumes "length b = 4" "length g = 15 \<or> length g = 18" "drop (length g - 2) g = ''TA''"
  shows "pattern_search (b @ g @ ''ACAGGTTG'' @ rest) = None"
  using assms(2)
proof
  assume "length g = 15"
  with assms(1) show ?thesis
    by (simp add: pattern_search_def match_with_def)
next
  assume l: "length g = 18"
  with assms(3) have d16: "drop 16 g = ''TA''" by simp
  have "drop 17 g = drop 1 (drop 16 g)" by simp
  with d16 have d17: "drop 17 g = ''A''" by simp
  from l assms(1) d16 d17 show ?thesis
    by (simp add: pattern_search_def match_with_def)
qed

text \<open>
  C5, as the code has it. For a barcode of four characters A, C, G, T and a segment of
  the shape the pattern asks, extract\_chromosome\_sequence extracts the segment
  exactly when it has 16 or 17 characters; with a segment of 15 or of 18 characters
  ending in TA the read is not accepted and the aggregation is unchanged, with no
  error. trim\_fastq keeps a read exactly when the segment has 16 or 17 characters,
  provided the TA and anchor that end the segment are the first occurrence of
  TAACAGGTTG in the read.
\<close>

theorem window_16_17:
  "(barcode_ok b \<and> segment_chars_ok g \<longrightarrow>
      (pattern_search (b @ g @ ''ACAGGTTG'' @ rest) = Some (b, g)
         \<longleftrightarrow> length g = 16 \<or> length g = 17))
   \<and> (length b' = 4 \<and> (length g' = 15 \<or> length g' = 18) \<and> drop (length g' - 2) g' = ''TA'' \<longrightarrow>
        \<not> accepted \<lparr>name = n, sequence = b' @ g' @ ''ACAGGTTG'' @ rest', quality = q\<rparr>
        \<and> extract_step d \<lparr>name = n, sequence = b' @ g' @ ''ACAGGTTG'' @ rest', quality = q\<rparr> = d)
   \<and> (length b'' = 4
        \<and> first_occurrence ''TAACAGGTTG'' (b'' @ g'' @ ''ACAGGTTG'' @ rest'') (length g'' + 2) \<longrightarrow>
        (trim_read \<lparr>name = n', sequence = b'' @ g'' @ ''ACAGGTTG'' @ rest'', quality = q'\<rparr> \<noteq> None
           \<longleftrightarrow> length g'' = 16 \<or> length g'' = 17))"
proof (intro conjI impI)
  assume "barcode_ok b \<and> segment_chars_ok g"
  then show "pattern_search (b @ g @ ''ACAGGTTG'' @ rest) = Some (b, g)
         \<longleftrightarrow> length g = 16 \<or> length g = 17"
    by (auto simp: pattern_search_Some_iff)
next
  assume a: "length b' = 4 \<and> (length g' = 15 \<or> length g' = 18) \<and> drop (length g' - 2) g' = ''TA''"
  let ?r = "\<lparr>name = n, sequence = b' @ g' @ ''ACAGGTTG'' @ rest', quality = q\<rparr>"
  have "pattern_search (b' @ g' @ ''ACAGGTTG'' @ rest') = None"
    using a by (intro rejected_15_18) simp_all
  then show "\<not> accepted ?r" by (simp add: accepted_def)
  then show "extract_step d ?r = d" by (rule extract_step_rejected)
next
  assume a: "length b'' = 4
        \<and> first_occurrence ''TAACAGGTTG'' (b'' @ g'' @ ''ACAGGTTG'' @ rest'') (length g'' + 2)"
  let ?r = "\<lparr>name = n', sequence = b'' @ g'' @ ''ACAGGTTG'' @ rest'', quality = q'\<rparr>"
  from a have f: "first_occurrence ''TAACAGGTTG'' (sequence ?r) (length g'' + 2)" by simp
  have "first_occurrence ''TAACAGGTTG'' (sequence ?r) k \<longleftrightarrow> k = length g'' + 2" for k
    using f first_occurrence_unique by blast
  then show "trim_read ?r \<noteq> None \<longleftrightarrow> length g'' = 16 \<or> length g'' = 17"
    unfolding trim_read_iff by auto
qed

lemma first_occurrence_example: "first_occurrence ''TAACAGGTTG'' (''ACGT'' @ ''AAAAAAAAAAAAAATA'' @ ''ACAGGTTG'' @ '''') (length ''AAAAAAAAAAAAAATA'' + 2)"
  by (simp add: first_occurrence_def occurs_at_def upt_rec)

text \<open>The statement at the barcode ACGT with segments of 16 and of 15 characters.\<close>

theorem window_16_17_witness:
  "pattern_search (''ACGT'' @ ''AAAAAAAAAAAAAATA'' @ ''ACAGGTTG'' @ '''') = Some (''ACGT'', ''AAAAAAAAAAAAAATA'')
   \<and> \<not> accepted \<lparr>name = ''r1'', sequence = ''ACGT'' @ ''AAAAAAAAAAAAATA'' @ ''ACAGGTTG'' @ '''', quality = ''''\<rparr>
   \<and> extract_step [] \<lparr>name = ''r1'', sequence = ''ACGT'' @ ''AAAAAAAAAAAAATA'' @ ''ACAGGTTG'' @ '''', quality = ''''\<rparr> = []
   \<and> trim_read \<lparr>name = ''r1'', sequence = ''ACGT'' @ ''AAAAAAAAAAAAAATA'' @ ''ACAGGTTG'' @ '''', quality = ''''\<rparr> \<noteq> None"
  using window_16_17 [of "''ACGT''" "''AAAAAAAAAAAAAATA''" "''''" "''ACGT''" "''AAAAAAAAAAAAATA''"
      "''r1''" "''''" "''''" "[]" "''ACGT''" "''AAAAAAAAAAAAAATA''" "''''" "''r1''" "''''"] first_occurrence_example
  by (simp add: barcode_ok_def segment_chars_ok_def is_ACGT_def is_NACGT_def)

text \<open>
  C5 as stated fails: a 16-base segment ending in TA between the barcode ACGT and the
  anchor is rejected by extract\_chromosome\_sequence when it holds an N after its
  first character, and by trim\_fastq when it holds an earlier TAACAGGTTG; and a read
  with a 26-base segment ending in TA before the anchor is accepted by
  extract\_chromosome\_sequence, with the 16 characters before an earlier anchor.
\<close>

theorem sixteen_base_segment_rejected:
  "\<not> accepted \<lparr>name = ''r1'', sequence = ''ACGT'' @ ''AANAAAAAAAAAAATA'' @ ''ACAGGTTG'',
                quality = replicate 28 CHR ''I''\<rparr>
   \<and> extract_chromosome_sequence
       [\<lparr>name = ''r1'', sequence = ''ACGT'' @ ''AANAAAAAAAAAAATA'' @ ''ACAGGTTG'',
         quality = replicate 28 CHR ''I''\<rparr>] = []
   \<and> trim_read \<lparr>name = ''r2'', sequence = ''ACGT'' @ ''TAACAGGTTGAAAATA'' @ ''ACAGGTTG'',
                 quality = replicate 28 CHR ''I''\<rparr> = None
   \<and> extract_chromosome_sequence
       [\<lparr>name = ''r3'',
         sequence = ''ACGT'' @ ''AAAAAAAAAAAAAATAACAGGTTGTA'' @ ''ACAGGTTG'',
         quality = replicate 38 CHR ''I''\<rparr>]
     = [(''ACGT'', [(''AAAAAAAAAAAAAATA'', 1)])]"
  by (simp add: accepted_def extract_chromosome_sequence_def extract_from_def extract_step_def
      pattern_search_def match_with_def is_ACGT_def is_NACGT_def trim_read_def chromosomeSeq_def
      py_find_def)

text \<open>
  C3, as the code has it. trim\_fastq searches the whole sequence, the barcode
  included, for the first occurrence of TAACAGGTTG: the computed length is that index
  plus 2 minus 4, the read is kept exactly when the first occurrence is at index 18 or
  19, and an occurrence before index 18 makes the read rejected whatever comes later.
  extract\_chromosome\_sequence does not go by the first occurrence: a read it accepts
  has TAACAGGTTG at index 18 or 19, which need not be the first.
\<close>

theorem trim_decides_by_first_occurrence:
  "(first_occurrence ''TAACAGGTTG'' s i \<longrightarrow> chromosomeSeq s = int i + 2 - 4)
   \<and> (trim_read r \<noteq> None \<longleftrightarrow>
        first_occurrence ''TAACAGGTTG'' (sequence r) 18
        \<or> first_occurrence ''TAACAGGTTG'' (sequence r) 19)
   \<and> (occurs_at ''TAACAGGTTG'' (sequence r') j \<and> j < 18 \<longrightarrow> trim_read r' = None)
   \<and> (accepted r'' \<longrightarrow>
        occurs_at ''TAACAGGTTG'' (sequence r'') 18 \<or> occurs_at ''TAACAGGTTG'' (sequence r'') 19)"
proof (intro conjI impI)
  assume "first_occurrence ''TAACAGGTTG'' s i"
  then show "chromosomeSeq s = int i + 2 - 4"
    by (simp add: chromosomeSeq_def py_find_first)
next
  show "trim_read r \<noteq> None \<longleftrightarrow>
        first_occurrence ''TAACAGGTTG'' (sequence r) 18
        \<or> first_occurrence ''TAACAGGTTG'' (sequence r) 19"
    by (rule trim_read_iff)
next
  assume a: "occurs_at ''TAACAGGTTG'' (sequence r') j \<and> j < 18"
  then have "j < 18" "j < 19" "occurs_at ''TAACAGGTTG'' (sequence r') j" by simp_all
  then have "\<not> first_occurrence ''TAACAGGTTG'' (sequence r') 18"
    "\<not> first_occurrence ''TAACAGGTTG'' (sequence r') 19"
    unfolding first_occurrence_iff by blast+
  then show "trim_read r' = None"
    using trim_read_iff [of r'] by blast
next
  assume "accepted r''"
  then obtain b g where "pattern_search (sequence r'') = Some (b, g)"
    by (auto simp: accepted_def)
  then obtain rest where s: "sequence r'' = b @ g @ ''ACAGGTTG'' @ rest"
    and b: "length b = 4" and g: "length g = 16 \<or> length g = 17" "2 \<le> length g"
    "drop (length g - 2) g = ''TA''"
    by (auto simp: pattern_search_Some_iff barcode_ok_def segment_chars_ok_def)
  from g(1) show "occurs_at ''TAACAGGTTG'' (sequence r'') 18 \<or> occurs_at ''TAACAGGTTG'' (sequence r'') 19"
  proof
    assume "length g = 16"
    with s b g(3) have "occurs_at ''TAACAGGTTG'' (sequence r'') 18"
      by (simp add: occurs_at_def)
    then show ?thesis ..
  next
    assume "length g = 17"
    with s b g(3) have "occurs_at ''TAACAGGTTG'' (sequence r'') 19"
      by (simp add: occurs_at_def)
    then show ?thesis ..
  qed
qed

text \<open>
  The statement at reads with the barcode ACGT: one whose only TAACAGGTTG is at index
  18, and one with TAACAGGTTG at index 4 and again at index 18.
\<close>

theorem trim_decides_by_first_occurrence_witness:
  "first_occurrence ''TAACAGGTTG'' (''ACGT'' @ ''AAAAAAAAAAAAAATA'' @ ''ACAGGTTG'') 18
   \<and> chromosomeSeq (''ACGT'' @ ''AAAAAAAAAAAAAATA'' @ ''ACAGGTTG'') = 16
   \<and> occurs_at ''TAACAGGTTG'' (''ACGT'' @ ''TAACAGGTTGAAAATA'' @ ''ACAGGTTG'') 4
   \<and> occurs_at ''TAACAGGTTG'' (''ACGT'' @ ''TAACAGGTTGAAAATA'' @ ''ACAGGTTG'') 18
   \<and> trim_read \<lparr>name = ''r2'', sequence = ''ACGT'' @ ''TAACAGGTTGAAAATA'' @ ''ACAGGTTG'',
                 quality = ''''\<rparr> = None
   \<and> accepted \<lparr>name = ''r2'', sequence = ''ACGT'' @ ''TAACAGGTTGAAAATA'' @ ''ACAGGTTG'',
                quality = ''''\<rparr>"
proof -
  let ?s = "''ACGT'' @ ''AAAAAAAAAAAAAATA'' @ ''ACAGGTTG''"
  let ?r2 = "\<lparr>name = ''r2'', sequence = ''ACGT'' @ ''TAACAGGTTGAAAATA'' @ ''ACAGGTTG'',
              quality = ''''\<rparr>"
  have first: "first_occurrence ''TAACAGGTTG'' ?s 18"
    by (simp add: first_occurrence_def occurs_at_def upt_rec)
  have at4: "occurs_at ''TAACAGGTTG'' (sequence ?r2) 4 \<and> (4::nat) < 18"
    by (simp add: occurs_at_def)
  have at18: "occurs_at ''TAACAGGTTG'' (sequence ?r2) 18"
    by (simp add: occurs_at_def)
  have acc: "accepted ?r2"
    by (simp add: accepted_def pattern_search_def match_with_def is_ACGT_def is_NACGT_def)
  from trim_decides_by_first_occurrence
         [where s = ?s and i = 18 and r' = ?r2 and j = 4 and r'' = ?r2] first at4 at18 acc
  show ?thesis by simp
qed

text \<open>
  C3 as stated fails on both extractors. In the first read the remainder after the
  barcode ACGT starts with TAACAGGTTG (index 0, a length of 2), yet
  extract\_chromosome\_sequence accepts the read with the 16 characters before the
  later anchor. In the second read the remainder after the first four characters has
  its first TAACAGGTTG at index 14, a length of 16, yet trim\_fastq rejects the read,
  because it searches the whole sequence and finds index 0.
\<close>

theorem first_match_in_remainder_does_not_decide:
  "py_find (drop 4 (''ACGT'' @ ''TAACAGGTTGAAAATA'' @ ''ACAGGTTG'')) ''TAACAGGTTG'' = 0
   \<and> extract_chromosome_sequence
       [\<lparr>name = ''r1'', sequence = ''ACGT'' @ ''TAACAGGTTGAAAATA'' @ ''ACAGGTTG'',
         quality = replicate 28 CHR ''I''\<rparr>]
     = [(''ACGT'', [(''TAACAGGTTGAAAATA'', 1)])]
   \<and> py_find (drop 4 (''TAACAGGTTG'' @ ''AAAAAAAA'' @ ''TAACAGGTTG'')) ''TAACAGGTTG'' = 14
   \<and> trim_read \<lparr>name = ''r2'', sequence = ''TAACAGGTTG'' @ ''AAAAAAAA'' @ ''TAACAGGTTG'',
                 quality = replicate 28 CHR ''I''\<rparr> = None"
  by (simp add: extract_chromosome_sequence_def extract_from_def extract_step_def
      pattern_search_def match_with_def is_ACGT_def is_NACGT_def trim_read_def chromosomeSeq_def
      py_find_def)

subsection \<open>The classifier\<close>





























































end
